theory Spec2Isabelle
  imports Complex_Main "HOL-Library.Sublist"
begin

section \<open>Strings\<close>

text \<open>
  JavaScript strings are sequences of UTF-16 code units; the model uses \<open>string\<close>,
  whose characters stand for the code units \<open>0\<close> to \<open>255\<close> (ASCII and Latin-1), the
  range the patterns, paths and separators of the program live in. \<open>length\<close>, slicing
  and searching are positional and do not depend on the width of a code unit.
\<close>

definition slash :: char where
  "slash = CHR ''/''"

definition backslash :: char where
  "backslash = CHR 0x5C"

definition star :: char where
  "star = CHR ''*''"

definition newline :: char where
  "newline = CHR 0x0A"

definition carriageReturn :: char where
  "carriageReturn = CHR 0x0D"


definition dot :: char where
  "dot = CHR ''.''"

text \<open>\<open>String.prototype.startsWith\<close>, \<open>endsWith\<close> and \<open>includes\<close>.\<close>

fun startsWith :: "string \<Rightarrow> string \<Rightarrow> bool" where
  "startsWith s [] = True"
| "startsWith [] (p # ps) = False"
| "startsWith (c # cs) (p # ps) = (c = p \<and> startsWith cs ps)"

definition endsWith :: "string \<Rightarrow> string \<Rightarrow> bool" where
  "endsWith s p = startsWith (rev s) (rev p)"

fun includesStr :: "string \<Rightarrow> string \<Rightarrow> bool" where
  "includesStr [] p = (p = [])"
| "includesStr (c # cs) p = (startsWith (c # cs) p \<or> includesStr cs p)"

text \<open>
  \<open>String.prototype.toLowerCase\<close> on the code units \<open>0\<close> to \<open>255\<close>: the letters
  \<open>A\<close> to \<open>Z\<close> and the letters \<open>0xC0\<close> to \<open>0xDE\<close> (but the multiplication sign
  \<open>0xD7\<close>) move up by \<open>0x20\<close>; every other code unit is its own lower case.
\<close>

definition toLowerChar :: "char \<Rightarrow> char" where
  "toLowerChar c =
     (let n = (of_char c :: nat)
      in if (65 \<le> n \<and> n \<le> 90) \<or> (192 \<le> n \<and> n \<le> 222 \<and> n \<noteq> 215) then char_of (n + 32)
         else c)"

definition toLowerCase :: "string \<Rightarrow> string" where
  "toLowerCase s = map toLowerChar s"

text \<open>
  The canonical form under which the flag \<open>i\<close> compares code units (without the flag
  \<open>u\<close>): the upper case, when that is one code unit. The result is the number of a
  code unit, since two of them lie beyond \<open>255\<close>: the letters \<open>a\<close> to \<open>z\<close> and
  \<open>0xE0\<close> to \<open>0xFE\<close> (but the division sign \<open>0xF7\<close>) move down by \<open>0x20\<close>,
  \<open>0xFF\<close> goes to \<open>0x178\<close> and the micro sign \<open>0xB5\<close> to \<open>0x39C\<close>; the sharp s
  \<open>0xDF\<close>, whose upper case is two code units, and every other code unit stay.
\<close>

definition canonicalize :: "char \<Rightarrow> nat" where
  "canonicalize c =
     (let n = (of_char c :: nat)
      in if (97 \<le> n \<and> n \<le> 122) \<or> (224 \<le> n \<and> n \<le> 254 \<and> n \<noteq> 247) then n - 32
         else if n = 255 then 376
         else if n = 181 then 924
         else n)"

section \<open>The pattern matcher (\<open>src/utils/patternMatcher.ts\<close>)\<close>

subsection \<open>\<open>globToRegex\<close>: the three textual replacements\<close>

text \<open>
  \<open>pattern.replace(/[.+^${}()|[\]\\]/g, '\\$&')\<close>: every character of the class is
  prefixed with a backslash.
\<close>

definition regexSpecial :: "char \<Rightarrow> bool" where
  "regexSpecial c = (c \<in> set ''.+^${}()|[]'' \<or> c = backslash)"

definition escapeSpecial :: "string \<Rightarrow> string" where
  "escapeSpecial pattern =
     concat (map (\<lambda>c. if regexSpecial c then [backslash, c] else [c]) pattern)"

text \<open>\<open>.replace(/\*\*/g, '.*')\<close>: leftmost, non-overlapping pairs of stars.\<close>

fun replaceDoubleStar :: "string \<Rightarrow> string" where
  "replaceDoubleStar (c # d # cs) =
     (if c = star \<and> d = star then ''.*'' @ replaceDoubleStar cs
      else c # replaceDoubleStar (d # cs))"
| "replaceDoubleStar cs = cs"

text \<open>
  \<open>.replace(/\*/g, '[^/]*')\<close>: every star that is left, among them the star of each
  \<open>.*\<close> the step before has just written.
\<close>

definition replaceStar :: "string \<Rightarrow> string" where
  "replaceStar s = concat (map (\<lambda>c. if c = star then ''[^/]*'' else [c]) s)"

text \<open>\<open>.replace(/\?/g, '.')\<close>.\<close>

definition replaceQuestion :: "string \<Rightarrow> string" where
  "replaceQuestion s = map (\<lambda>c. if c = CHR ''?'' then dot else c) s"

text \<open>
  The source text between the anchors \<open>^\<close> and \<open>$\<close> of the expression that
  \<open>globToRegex\<close> hands to \<open>new RegExp(..., 'i')\<close>.
\<close>

definition regexString :: "string \<Rightarrow> string" where
  "regexString pattern = replaceQuestion (replaceStar (replaceDoubleStar (escapeSpecial pattern)))"

subsection \<open>The regular expressions \<open>globToRegex\<close> can produce\<close>

text \<open>
  The text produced above consists of escaped characters \<open>\c\<close>, the dot, the starred
  class \<open>[^/]*\<close> and plain characters. \<open>parseRegex\<close> reads that fragment of the
  regular-expression syntax and answers \<open>None\<close> outside it, where the constructor
  would throw or build an expression of another kind; \<open>parseRegex_regexString\<close> below
  shows that the text of \<open>regexString\<close> never leaves the fragment.
\<close>

datatype rx = RxChar char | RxAny | RxNotSlashStar

fun parseRegex :: "string \<Rightarrow> rx list option" where
  "parseRegex [] = Some []"
| "parseRegex (c # cs) =
     (if c = backslash then
        (case cs of
           [] \<Rightarrow> None
         | d # ds \<Rightarrow> map_option ((#) (RxChar d)) (parseRegex ds))
      else if c = dot then map_option ((#) RxAny) (parseRegex cs)
      else if c = CHR ''['' then
        (case cs of
           c1 # c2 # c3 # c4 # ds \<Rightarrow>
             (if [c1, c2, c3, c4] = ''^/]*'' then map_option ((#) RxNotSlashStar) (parseRegex ds)
              else None)
         | _ \<Rightarrow> None)
      else if c \<in> set ''*?+^$(){}|]'' then None
      else map_option ((#) (RxChar c)) (parseRegex cs))"

text \<open>
  Anchored matching under the flag \<open>i\<close>: a character matches when the canonical forms
  agree, the dot matches any character but a line terminator, and \<open>[^/]*\<close> any run of
  characters other than the slash.
\<close>

fun rxMatch :: "rx list \<Rightarrow> string \<Rightarrow> bool" where
  "rxMatch [] s = (s = [])"
| "rxMatch (RxChar c # r) s =
     (case s of [] \<Rightarrow> False | x # xs \<Rightarrow> canonicalize x = canonicalize c \<and> rxMatch r xs)"
| "rxMatch (RxAny # r) s =
     (case s of [] \<Rightarrow> False | x # xs \<Rightarrow> x \<noteq> newline \<and> x \<noteq> carriageReturn \<and> rxMatch r xs)"
| "rxMatch (RxNotSlashStar # r) s =
     (rxMatch r s \<or> (case s of [] \<Rightarrow> False | x # xs \<Rightarrow> x \<noteq> slash \<and> rxMatch (RxNotSlashStar # r) xs))"

text \<open>
  \<open>globToRegex(pattern).test(path)\<close> inside the \<open>try\<close> block of
  \<open>matchesAnyPattern\<close>; the \<open>catch\<close> branch returns \<open>false\<close>.
\<close>

definition globTest :: "string \<Rightarrow> string \<Rightarrow> bool" where
  "globTest pattern normalizedPath =
     (case parseRegex (regexString pattern) of
        None \<Rightarrow> False
      | Some r \<Rightarrow> rxMatch r normalizedPath)"

subsection \<open>\<open>matchesAnyPattern\<close>\<close>

definition normalizePath :: "string \<Rightarrow> string" where
  "normalizePath filePath = map (\<lambda>c. if c = backslash then slash else c) filePath"

text \<open>The body of the callback given to \<open>patterns.some\<close>.\<close>

definition matchesPattern :: "string \<Rightarrow> string \<Rightarrow> bool" where
  "matchesPattern normalizedPath pattern =
     (if pattern = normalizedPath then True
      else if \<not> includesStr pattern [slash] \<and> \<not> includesStr pattern [star] then
        includesStr normalizedPath ([slash] @ pattern @ [slash]) \<or>
        startsWith normalizedPath (pattern @ [slash]) \<or>
        endsWith normalizedPath ([slash] @ pattern) \<or>
        normalizedPath = pattern
      else globTest pattern normalizedPath)"

definition matchesAnyPattern :: "string \<Rightarrow> string list \<Rightarrow> bool" where
  "matchesAnyPattern filePath patterns =
     (let normalizedPath = normalizePath filePath
      in list_ex (matchesPattern normalizedPath) patterns)"



section \<open>The filter pipeline (\<open>src/utils/fileProcessor.ts\<close>)\<close>

text \<open>\<open>FileEntry\<close> of \<open>types.ts\<close>; the field \<open>size\<close> is named \<open>fsize\<close> here.\<close>

record FileEntry =
  path :: string
  name :: string
  content :: string
  fsize :: nat
  extension :: string

text \<open>
  A browser \<open>File\<close>, as far as \<open>processFiles\<close> looks at it. \<open>file_text\<close> is what
  reading the file yields: \<open>None\<close> when the reader signals an error.
\<close>

record File =
  webkitRelativePath :: string
  file_name :: string
  file_size :: nat
  file_text :: "string option"



text \<open>\<open>file.webkitRelativePath || file.name\<close>: the empty string is falsy.\<close>

definition filePath :: "File \<Rightarrow> string" where
  "filePath file =
     (if webkitRelativePath file \<noteq> [] then webkitRelativePath file else file_name file)"







section \<open>The bundle selector (\<open>filteredFiles\<close> of \<open>OutputViewer.tsx\<close>)\<close>

record Bundle =
  bundle_id :: string
  bundle_name :: string
  description :: "string option"
  patterns :: "string list"

definition filteredFiles :: "FileEntry list \<Rightarrow> string \<Rightarrow> Bundle list \<Rightarrow> FileEntry list" where
  "filteredFiles files activeBundleId bundles =
     (if activeBundleId = ''all'' then files
      else
        (case find (\<lambda>b. bundle_id b = activeBundleId) bundles of
           None \<Rightarrow> files
         | Some bundle \<Rightarrow> filter (\<lambda>f. matchesAnyPattern (path f) (patterns bundle)) files))"

section \<open>The chunk packer (\<open>chunks\<close> of \<open>OutputViewer.tsx\<close>)\<close>

subsection \<open>Platform string operations\<close>

text \<open>
  \<open>s.lastIndexOf(c, position)\<close> for a one-character search string: the position is
  clamped to \<open>[0, length - 1]\<close>, and the result is the greatest index not above it
  that holds \<open>c\<close>, or \<open>-1\<close>.
\<close>

fun lastIndex :: "string \<Rightarrow> char \<Rightarrow> int" where
  "lastIndex [] c = - 1"
| "lastIndex (x # xs) c =
     (let r = lastIndex xs c in if 0 \<le> r then r + 1 else if x = c then 0 else - 1)"

definition lastIndexOf :: "string \<Rightarrow> char \<Rightarrow> int \<Rightarrow> int" where
  "lastIndexOf s c position =
     (let start = min (max position 0) (int (length s) - 1)
      in lastIndex (take (nat (start + 1)) s) c)"

text \<open>
  \<open>s.slice(start, end)\<close> and \<open>s.slice(start)\<close>: a negative index counts from the
  end, and every index is clamped to \<open>[0, length]\<close>.
\<close>

definition relativeIndex :: "nat \<Rightarrow> int \<Rightarrow> nat" where
  "relativeIndex len i = (if i < 0 then nat (max (int len + i) 0) else min (nat i) len)"

definition slice :: "string \<Rightarrow> int \<Rightarrow> int \<Rightarrow> string" where
  "slice s start end =
     (let from = relativeIndex (length s) start; to = relativeIndex (length s) end
      in take (to - from) (drop from s))"

definition sliceFrom :: "string \<Rightarrow> int \<Rightarrow> string" where
  "sliceFrom s start = drop (relativeIndex (length s) start) s"

text \<open>The decimal text a template literal writes for a non-negative integer.\<close>

fun showNat :: "nat \<Rightarrow> string" where
  "showNat n =
     (if n < 10 then [char_of (48 + n)] else showNat (n div 10) @ [char_of (48 + n mod 10)])"

declare showNat.simps [simp del]

subsection \<open>Data\<close>

record ChunkFileEntry = FileEntry +
  originalPath :: string
  isSplit :: bool
  partIndex :: nat
  totalParts :: nat

text \<open>
  A chunk of the result: \<open>{ id, content, files, label }\<close>, with \<open>chunk_\<close> put before
  the names that records above already use.
\<close>

record Chunk =
  chunk_id :: string
  chunk_content :: string
  chunk_files :: "ChunkFileEntry list"
  label :: string

definition PER_FILE_OVERHEAD :: int where
  "PER_FILE_OVERHEAD = 200"

definition CHUNK_OVERHEAD :: int where
  "CHUNK_OVERHEAD = 100"

definition toChunkFile :: "FileEntry \<Rightarrow> ChunkFileEntry" where
  "toChunkFile f =
     \<lparr>path = path f, name = name f, content = content f, fsize = fsize f,
      extension = extension f, originalPath = path f, isSplit = False, partIndex = 1,
      totalParts = 1\<rparr>"

subsection \<open>\<open>findSplitPoint\<close>\<close>

text \<open>
  \<open>maxChars\<close> is an integer (four times the token budget, less integer overheads and
  lengths). \<open>maxChars * 0.2\<close> and the comparison are computed in exact rationals: the
  rounding of the floating-point product never moves \<open>maxChars - searchWindow\<close> across
  an integer, so the test on the integer \<open>lastNewline\<close> has the same outcome.
\<close>

definition findSplitPoint :: "string \<Rightarrow> int \<Rightarrow> int" where
  "findSplitPoint text maxChars =
     (if int (length text) \<le> maxChars then int (length text)
      else
        let searchWindow = min (1000 :: rat) (of_int maxChars * 0.2);
            lastNewline = lastIndexOf text newline maxChars
        in if of_int lastNewline > of_int maxChars - searchWindow then lastNewline + 1
           else maxChars)"

subsection \<open>The state of the packing loop\<close>

text \<open>
  The part objects are shared: \<open>fileParts\<close> and the chunk arrays hold references to the
  same objects, and the marking after the \<open>while\<close> loop writes \<open>isSplit\<close> and
  \<open>totalParts\<close> through \<open>fileParts\<close>. The model keeps the objects in \<open>heap\<close>, in
  order of allocation, and the arrays hold addresses (indices into \<open>heap\<close>).
  A chunk under construction \<open>{ id: `temp-n`, files }\<close> is its \<open>files\<close> array; the
  temporary id is never read.
\<close>

record packState =
  heap :: "ChunkFileEntry list"
  resultChunks :: "nat list list"
  currentChunkFiles :: "nat list"
  currentChunkSize :: int
  remainingContent :: string
  partCounter :: nat
  fileParts :: "nat list"

definition flushChunk :: "packState \<Rightarrow> packState" where
  "flushChunk s =
     s\<lparr>resultChunks := resultChunks s @ [currentChunkFiles s],
       currentChunkFiles := [],
       currentChunkSize := CHUNK_OVERHEAD\<rparr>"

text \<open>\<open>fileParts.push({...})\<close>: allocate the object and push its address.\<close>

definition pushPart :: "ChunkFileEntry \<Rightarrow> packState \<Rightarrow> packState" where
  "pushPart part s = s\<lparr>heap := heap s @ [part], fileParts := fileParts s @ [length (heap s)]\<rparr>"

text \<open>One iteration of \<open>while (remainingContent.length > 0)\<close>.\<close>

definition loopBody :: "int \<Rightarrow> ChunkFileEntry \<Rightarrow> packState \<Rightarrow> packState" where
  "loopBody limitChars file s =
     (let spaceInCurrent = limitChars - currentChunkSize s;
          maxContentInCurrent = spaceInCurrent - PER_FILE_OVERHEAD
      in
        if maxContentInCurrent < 500 \<and> length (currentChunkFiles s) > 0 then flushChunk s
        else
          let currentSpace = limitChars - currentChunkSize s - PER_FILE_OVERHEAD;
              s1 =
                (if int (length (remainingContent s)) \<le> currentSpace then
                   (pushPart (file\<lparr>content := remainingContent s, partIndex := partCounter s\<rparr>) s)
                     \<lparr>remainingContent := []\<rparr>
                 else
                   let splitLength = findSplitPoint (remainingContent s) currentSpace;
                       chunkContent = slice (remainingContent s) 0 splitLength
                   in (pushPart (file\<lparr>content := chunkContent, partIndex := partCounter s\<rparr>) s)
                        \<lparr>remainingContent := sliceFrom (remainingContent s) splitLength,
                         partCounter := partCounter s + 1\<rparr>);
              lastPart = last (fileParts s1);
              s2 = s1\<lparr>currentChunkFiles := currentChunkFiles s1 @ [lastPart],
                      currentChunkSize :=
                        currentChunkSize s1 + int (length (content (heap s1 ! lastPart))) +
                        PER_FILE_OVERHEAD\<rparr>
          in if length (remainingContent s2) > 0 then flushChunk s2 else s2)"

text \<open>The \<open>while\<close> loop; \<open>None\<close> is a loop that never ends.\<close>

partial_function (option) whileLoop :: "int \<Rightarrow> ChunkFileEntry \<Rightarrow> packState \<Rightarrow> packState option" where
  "whileLoop limitChars file s =
     (if length (remainingContent s) > 0 then whileLoop limitChars file (loopBody limitChars file s)
      else Some s)"

declare whileLoop.simps [code]

text \<open>
  After the loop: \<open>if (totalParts > 1) fileParts.forEach(p => { p.isSplit = true;
  p.totalParts = totalParts })\<close>, a write through each address.
\<close>

definition markSplit :: "packState \<Rightarrow> packState" where
  "markSplit s =
     (let total = length (fileParts s) in
      if total > 1 then
        s\<lparr>heap := foldl (\<lambda>h a. h[a := (h ! a)\<lparr>isSplit := True, totalParts := total\<rparr>])
                     (heap s) (fileParts s)\<rparr>
      else s)"

text \<open>\<open>for (const file of allFilesAsChunkFiles)\<close>.\<close>

fun forFiles :: "int \<Rightarrow> ChunkFileEntry list \<Rightarrow> packState \<Rightarrow> packState option" where
  "forFiles limitChars [] s = Some s"
| "forFiles limitChars (file # rest) s =
     (case whileLoop limitChars file
             (s\<lparr>remainingContent := content file, partCounter := 1, fileParts := []\<rparr>) of
        None \<Rightarrow> None
      | Some s' \<Rightarrow> forFiles limitChars rest (markSplit s'))"

definition initialState :: packState where
  "initialState =
     \<lparr>heap = [], resultChunks = [], currentChunkFiles = [], currentChunkSize = CHUNK_OVERHEAD,
      remainingContent = [], partCounter = 1, fileParts = []\<rparr>"

text \<open>The flush after the last file.\<close>

definition finalFlush :: "packState \<Rightarrow> packState" where
  "finalFlush s =
     (if length (currentChunkFiles s) > 0
      then s\<lparr>resultChunks := resultChunks s @ [currentChunkFiles s]\<rparr> else s)"

text \<open>\<open>resultChunks.map((chunk, index) => ...)\<close>, reading the parts from the heap.\<close>

definition finalChunk ::
  "(ChunkFileEntry list \<Rightarrow> (nat \<times> nat) option \<Rightarrow> string) \<Rightarrow> packState \<Rightarrow> nat \<times> nat list \<Rightarrow> Chunk" where
  "finalChunk generateContent s ic =
     (case ic of (index, chunk) \<Rightarrow>
        let files = map (\<lambda>a. heap s ! a) chunk in
        \<lparr>chunk_id = ''part-'' @ showNat (index + 1),
         chunk_content = generateContent files (Some (index + 1, length (resultChunks s))),
         chunk_files = files,
         label = ''Part '' @ showNat (index + 1) @ '' of '' @ showNat (length (resultChunks s))\<rparr>)"

text \<open>
  The whole computation of \<open>chunks\<close>. The renderer \<open>generateContent\<close> (which depends on
  the chosen format) is a parameter: the packer only stores its result in each chunk.
  Its second argument holds the optional \<open>part\<close> and \<open>totalParts\<close>.
\<close>

definition pack ::
  "(ChunkFileEntry list \<Rightarrow> (nat \<times> nat) option \<Rightarrow> string) \<Rightarrow> FileEntry list \<Rightarrow> int \<Rightarrow> bool
     \<Rightarrow> Chunk list option" where
  "pack generateContent files maxTokens enableSplitting =
     (let allFilesAsChunkFiles = map toChunkFile files in
      if length allFilesAsChunkFiles = 0 then Some []
      else if \<not> enableSplitting then
        Some [\<lparr>chunk_id = ''full'',
               chunk_content = generateContent allFilesAsChunkFiles None,
               chunk_files = allFilesAsChunkFiles,
               label = ''Full Context''\<rparr>]
      else
        let limitChars = maxTokens * 4 in
        (case forFiles limitChars allFilesAsChunkFiles initialState of
           None \<Rightarrow> None
         | Some s \<Rightarrow>
             let s' = finalFlush s
             in Some (map (finalChunk generateContent s') (enumerate 0 (resultChunks s')))))"

section \<open>Predicates used in the proofs\<close>

text \<open>
  The shape of the text between the replacements of \<open>globToRegex\<close>: a backslash is
  followed by the special character it escapes, and no other special character but the
  dot stands alone.
\<close>

fun wellEscaped :: "string \<Rightarrow> bool" where
  "wellEscaped [] = True"
| "wellEscaped (c # cs) =
     (if c = backslash then (case cs of [] \<Rightarrow> False | d # ds \<Rightarrow> regexSpecial d \<and> wellEscaped ds)
      else (\<not> regexSpecial c \<or> c = dot) \<and> wellEscaped cs)"

subsection \<open>The state of the packing loop\<close>


text \<open>
  A state that the loop body maps to a state of the same kind: the budget leaves no room
  after the overheads, the chunk under construction is empty, and the remaining content
  does not begin with a newline.
\<close>

definition stuck :: "int \<Rightarrow> packState \<Rightarrow> bool" where
  "stuck limitChars s \<longleftrightarrow>
     limitChars \<le> 300 \<and> limitChars mod 4 = 0 \<and> remainingContent s \<noteq> [] \<and>
     hd (remainingContent s) \<noteq> newline \<and> currentChunkFiles s = [] \<and>
     currentChunkSize s = CHUNK_OVERHEAD"

text \<open>
  What an iteration that places a part does to the state, before the flush that follows
  when content remains.
\<close>

definition placed :: "int \<Rightarrow> ChunkFileEntry \<Rightarrow> packState \<Rightarrow> packState" where
  "placed limitChars fl s =
     (let currentSpace = limitChars - currentChunkSize s - PER_FILE_OVERHEAD;
          fits = int (length (remainingContent s)) \<le> currentSpace;
          splitLength = findSplitPoint (remainingContent s) currentSpace;
          part = fl\<lparr>content := (if fits then remainingContent s else slice (remainingContent s) 0 splitLength),
                    partIndex := partCounter s\<rparr>
      in s\<lparr>heap := heap s @ [part],
            fileParts := fileParts s @ [length (heap s)],
            remainingContent := (if fits then [] else sliceFrom (remainingContent s) splitLength),
            partCounter := (if fits then partCounter s else partCounter s + 1),
            currentChunkFiles := currentChunkFiles s @ [length (heap s)],
            currentChunkSize := currentChunkSize s + int (length (content part)) + PER_FILE_OVERHEAD\<rparr>)"

text \<open>
  What the claims read of a part: the path of its file, its slice of the content and
  its index. \<open>partsOf pth txt qs\<close>: the parts \<open>qs\<close> belong to the file at \<open>pth\<close>,
  their slices make up \<open>txt\<close> in order, and they are numbered from 1.
\<close>

definition triple :: "ChunkFileEntry \<Rightarrow> string \<times> string \<times> nat" where
  "triple p = (originalPath p, content p, partIndex p)"

definition partsOf :: "string \<Rightarrow> string \<Rightarrow> (string \<times> string \<times> nat) list \<Rightarrow> bool" where
  "partsOf pth txt qs \<longleftrightarrow>
     list_all (\<lambda>q. fst q = pth) qs \<and> concat (map (fst \<circ> snd) qs) = txt \<and>
     map (snd \<circ> snd) qs = [1..<Suc (length qs)]"

text \<open>
  The invariant of the \<open>while\<close> loop for the file \<open>fl\<close>, where \<open>h0\<close> is the heap
  before the loop: the parts allocated since, followed by the remaining content, make up
  the content of the file.
\<close>

definition loopInv :: "(string \<times> string \<times> nat) list \<Rightarrow> ChunkFileEntry \<Rightarrow> packState \<Rightarrow> bool" where
  "loopInv h0 fl s \<longleftrightarrow>
     (\<exists>qs. map triple (heap s) = h0 @ qs \<and>
           list_all (\<lambda>q. fst q = originalPath fl) qs \<and>
           concat (map (fst \<circ> snd) qs) @ remainingContent s = content fl \<and>
           map (snd \<circ> snd) qs = [1..<Suc (length qs)] \<and>
           (remainingContent s \<noteq> [] \<longrightarrow> partCounter s = Suc (length qs)))"

text \<open>The chunks, in order, hold the addresses of the heap, in order.\<close>

definition addrInv :: "packState \<Rightarrow> bool" where
  "addrInv s \<longleftrightarrow> concat (resultChunks s) @ currentChunkFiles s = [0..<length (heap s)]"

text \<open>The heap holds the parts of the files finished so far, file after file.\<close>

definition heapInv :: "ChunkFileEntry list \<Rightarrow> packState \<Rightarrow> bool" where
  "heapInv finished s \<longleftrightarrow>
     (\<exists>pss. map triple (heap s) = concat pss \<and>
            list_all2 (\<lambda>f qs. partsOf (originalPath f) (content f) qs) finished pss)"

text \<open>
  The measure of the loop when the budget leaves room: an iteration either flushes a
  chunk that is too full (\<open>mustFlush\<close>) or consumes content.
\<close>

definition mustFlush :: "int \<Rightarrow> packState \<Rightarrow> bool" where
  "mustFlush limitChars s \<longleftrightarrow>
     limitChars - currentChunkSize s - PER_FILE_OVERHEAD < 500 \<and> currentChunkFiles s \<noteq> []"

definition roomy :: "int \<Rightarrow> packState \<Rightarrow> bool" where
  "roomy limitChars s \<longleftrightarrow>
     304 \<le> limitChars \<and> (currentChunkFiles s = [] \<longrightarrow> currentChunkSize s = CHUNK_OVERHEAD)"

definition workLeft :: "int \<Rightarrow> packState \<Rightarrow> nat" where
  "workLeft limitChars s =
     2 * length (remainingContent s) + (if mustFlush limitChars s then 1 else 0)"

section \<open>Properties of the pattern matcher and the selectors\<close>


lemma startsWith_iff: "startsWith s p \<longleftrightarrow> (\<exists>v. s = p @ v)"
  by (induction s p rule: startsWith.induct) auto

lemma endsWith_iff: "endsWith s p \<longleftrightarrow> (\<exists>u. s = u @ p)"
proof -
  have "(\<exists>v. rev s = rev p @ v) \<longleftrightarrow> (\<exists>u. s = u @ p)"
  proof
    assume "\<exists>v. rev s = rev p @ v"
    then obtain v where "rev s = rev p @ v" ..
    then have "rev (rev s) = rev (rev p @ v)" by simp
    then have "s = rev v @ p" by simp
    then show "\<exists>u. s = u @ p" ..
  next
    assume "\<exists>u. s = u @ p"
    then obtain u where "s = u @ p" ..
    then have "rev s = rev p @ rev u" by simp
    then show "\<exists>v. rev s = rev p @ v" ..
  qed
  then show ?thesis by (simp add: endsWith_def startsWith_iff)
qed

lemma includesStr_iff: "includesStr s p \<longleftrightarrow> (\<exists>u v. s = u @ p @ v)"
proof (induction s)
  case Nil
  then show ?case by auto
next
  case (Cons c cs)
  show ?case
  proof
    assume "includesStr (c # cs) p"
    then consider "startsWith (c # cs) p" | "includesStr cs p" by auto
    then show "\<exists>u v. c # cs = u @ p @ v"
    proof cases
      case 1
      then obtain v where "c # cs = p @ v" by (auto simp: startsWith_iff)
      then have "c # cs = [] @ p @ v" by simp
      then show ?thesis by blast
    next
      case 2
      then obtain u v where "cs = u @ p @ v" using Cons.IH by blast
      then have "c # cs = (c # u) @ p @ v" by simp
      then show ?thesis by blast
    qed
  next
    assume "\<exists>u v. c # cs = u @ p @ v"
    then obtain u v where uv: "c # cs = u @ p @ v" by blast
    show "includesStr (c # cs) p"
    proof (cases u)
      case Nil
      with uv have "startsWith (c # cs) p" by (auto simp: startsWith_iff)
      then show ?thesis by simp
    next
      case (Cons a u')
      with uv have "cs = u' @ p @ v" by simp
      then have "includesStr cs p" using Cons.IH by blast
      then show ?thesis by simp
    qed
  qed
qed

lemma includesStr_single: "includesStr s [c] \<longleftrightarrow> c \<in> set s"
  by (induction s) auto


lemma matchesPattern_shorthand:
  assumes "slash \<notin> set pattern" "star \<notin> set pattern"
  shows "matchesPattern n pattern \<longleftrightarrow>
           n = pattern \<or> (\<exists>v. n = pattern @ [slash] @ v) \<or> (\<exists>u. n = u @ [slash] @ pattern) \<or>
           (\<exists>u v. n = u @ [slash] @ pattern @ [slash] @ v)"
  using assms
  unfolding matchesPattern_def includesStr_single
  by (auto simp: startsWith_iff endsWith_iff includesStr_iff)

text \<open>
  Claim C7. A pattern with neither \<open>/\<close> nor \<open>*\<close> is a segment shorthand: it matches
  exactly when the slash-normalised path equals the pattern, starts with \<open>pattern/\<close>,
  ends with \<open>/pattern\<close>, or contains \<open>/pattern/\<close>; so \<open>node_modules\<close> matches
  \<open>src/node_modules/x.ts\<close> and does not match \<open>a/b/c.ts\<close>.
\<close>

theorem shorthand_pattern:
  "(\<forall>filePath pattern. slash \<notin> set pattern \<and> star \<notin> set pattern \<longrightarrow>
      matchesAnyPattern filePath [pattern] =
        (let n = normalizePath filePath
         in n = pattern \<or> (\<exists>v. n = pattern @ [slash] @ v) \<or> (\<exists>u. n = u @ [slash] @ pattern) \<or>
            (\<exists>u v. n = u @ [slash] @ pattern @ [slash] @ v)))
   \<and> matchesAnyPattern ''src/node_modules/x.ts'' [''node_modules'']
   \<and> \<not> matchesAnyPattern ''a/b/c.ts'' [''node_modules'']"
proof (intro conjI allI impI)
  fix filePath pattern
  assume "slash \<notin> set pattern \<and> star \<notin> set pattern"
  then show "matchesAnyPattern filePath [pattern] =
        (let n = normalizePath filePath
         in n = pattern \<or> (\<exists>v. n = pattern @ [slash] @ v) \<or> (\<exists>u. n = u @ [slash] @ pattern) \<or>
            (\<exists>u v. n = u @ [slash] @ pattern @ [slash] @ v))"
    by (simp add: matchesAnyPattern_def Let_def matchesPattern_shorthand)
next
  show "matchesAnyPattern ''src/node_modules/x.ts'' [''node_modules'']"
    by code_simp
next
  show "\<not> matchesAnyPattern ''a/b/c.ts'' [''node_modules'']"
    by code_simp
qed

text \<open>The shorthand at a path written with backslashes.\<close>

theorem shorthand_pattern_witness:
  "slash \<notin> set ''lib'' \<and> star \<notin> set ''lib'' \<and> matchesAnyPattern (''a'' @ [backslash] @ ''lib'') [''lib'']"
proof -
  have h: "slash \<notin> set ''lib'' \<and> star \<notin> set ''lib''"
    by (simp add: slash_def star_def)
  have n: "normalizePath (''a'' @ [backslash] @ ''lib'') = ''a'' @ [slash] @ ''lib''"
    by (simp add: normalizePath_def backslash_def)
  from shorthand_pattern have
    "matchesAnyPattern (''a'' @ [backslash] @ ''lib'') [''lib''] =
        (let n = normalizePath (''a'' @ [backslash] @ ''lib'')
         in n = ''lib'' \<or> (\<exists>v. n = ''lib'' @ [slash] @ v) \<or> (\<exists>u. n = u @ [slash] @ ''lib'') \<or>
            (\<exists>u v. n = u @ [slash] @ ''lib'' @ [slash] @ v))"
    using h by blast
  moreover have "\<exists>u. ''a'' @ [slash] @ ''lib'' = u @ [slash] @ ''lib''" by blast
  ultimately have "matchesAnyPattern (''a'' @ [backslash] @ ''lib'') [''lib'']"
    unfolding n Let_def by blast
  with h show ?thesis by blast
qed

text \<open>
  Claim C10. Case sensitivity depends on the kind of pattern: the shorthand \<open>README\<close>
  does not match the path \<open>readme\<close> (nor \<open>docs/readme\<close>), which differs from it only
  in letter case, while the glob \<open>A/B.TS\<close> matches the path \<open>a/b.ts\<close>, which also
  differs from it only in letter case.
\<close>

theorem case_sensitivity_by_kind:
  "\<not> matchesAnyPattern ''docs/readme'' [''README'']
   \<and> matchesAnyPattern ''docs/README'' [''README'']
   \<and> map canonicalize ''readme'' = map canonicalize ''README''
   \<and> \<not> matchesAnyPattern ''readme'' [''README'']
   \<and> matchesAnyPattern ''a/b.ts'' [''A/B.TS'']
   \<and> map canonicalize ''a/b.ts'' = map canonicalize ''A/B.TS''
   \<and> matchesAnyPattern ''SRC/Main.TS'' [''src/*.ts'']"
  by code_simp

text \<open>
  Claim C5. The claim expects \<open>src/**/*.ts\<close> to match \<open>src/a/b/c.ts\<close>. The replacement
  of single stars also rewrites the star of the \<open>.*\<close> written for \<open>**\<close>, so the
  expression is \<open>src/.[^/]*/[^/]*\.ts\<close> and the path two directories deep is not
  matched; a path one directory deep still is.
\<close>

theorem double_star_nested_path:
  "regexString ''src/**/*.ts'' = ''src/.[^/]*/[^/]*'' @ [backslash] @ ''.ts''
   \<and> \<not> matchesAnyPattern ''src/a/b/c.ts'' [''src/**/*.ts'']
   \<and> matchesAnyPattern ''src/utils/helper.ts'' [''src/**/*.ts'']"
  by code_simp

text \<open>
  Claim C6. The claim expects \<open>findSplitPoint(text, maxChars) \<le> maxChars\<close>. The search
  for the newline starts at index \<open>maxChars\<close> itself, so a newline at that index gives
  the split point \<open>maxChars + 1\<close>: here \<open>5\<close> for the limit \<open>4\<close>.
\<close>

theorem findSplitPoint_past_limit:
  "int (length ''aaaa\<newline>b'') > 4 \<and> findSplitPoint ''aaaa\<newline>b'' 4 = 5"
  by code_simp

text \<open>
  Claim C9. When the active bundle id is neither \<open>all\<close> nor the id of a defined bundle,
  the selection returns the file set unchanged.
\<close>

theorem bundle_unknown_id:
  assumes "activeBundleId \<noteq> ''all''"
    and "\<forall>b \<in> set bundles. bundle_id b \<noteq> activeBundleId"
  shows "filteredFiles files activeBundleId bundles = files"
proof -
  have "find (\<lambda>b. bundle_id b = activeBundleId) bundles = None"
    using assms(2) by (simp add: find_None_iff)
  then show ?thesis by (simp add: filteredFiles_def)
qed

text \<open>An id that no bundle has.\<close>

theorem bundle_unknown_id_witness:
  "''ui'' \<noteq> ''all'' \<and>
   map bundle_id [\<lparr>bundle_id = ''core'', bundle_name = ''Core'', description = None, patterns = [''src/*'']\<rparr>]
     = [''core''] \<and>
   filteredFiles
     [\<lparr>path = ''a.txt'', name = ''a.txt'', content = ''x'', fsize = 1, extension = ''txt''\<rparr>] ''ui''
     [\<lparr>bundle_id = ''core'', bundle_name = ''Core'', description = None, patterns = [''src/*'']\<rparr>] =
     [\<lparr>path = ''a.txt'', name = ''a.txt'', content = ''x'', fsize = 1, extension = ''txt''\<rparr>]"
proof -
  have a: "''ui'' \<noteq> ''all''" by simp
  have b: "\<forall>b \<in> set [\<lparr>bundle_id = ''core'', bundle_name = ''Core'', description = None, patterns = [''src/*'']\<rparr>].
      bundle_id b \<noteq> ''ui''" by simp
  from bundle_unknown_id [OF a b] a show ?thesis by simp
qed

text \<open>
  Claim C4. With splitting disabled and a non-empty file set, \<open>pack\<close> returns exactly
  one chunk, labelled \<open>Full Context\<close>, that holds every file in order as one unsplit
  part (part 1 of 1, not marked split), whatever the budget.
\<close>

theorem non_splitting_single_chunk:
  assumes "files \<noteq> []"
  shows "pack generateContent files maxTokens False =
           Some [\<lparr>chunk_id = ''full'',
                  chunk_content = generateContent (map toChunkFile files) None,
                  chunk_files = map toChunkFile files,
                  label = ''Full Context''\<rparr>]
         \<and> map originalPath (map toChunkFile files) = map path files
         \<and> map content (map toChunkFile files) = map content files
         \<and> (\<forall>p \<in> set (map toChunkFile files). partIndex p = 1 \<and> totalParts p = 1 \<and> \<not> isSplit p)"
  using assms by (auto simp: pack_def toChunkFile_def Let_def)

text \<open>One file, a budget of one token.\<close>

theorem non_splitting_single_chunk_witness:
  "[\<lparr>path = ''a.txt'', name = ''a.txt'', content = ''x'', fsize = 1, extension = ''txt''\<rparr>] \<noteq> [] \<and>
   map (\<lambda>c. (label c, map content (chunk_files c)))
     (the (pack (\<lambda>fs p. []) [\<lparr>path = ''a.txt'', name = ''a.txt'', content = ''x'', fsize = 1, extension = ''txt''\<rparr>] 1 False))
   = [(''Full Context'', [''x''])]"
proof -
  have a: "[\<lparr>path = ''a.txt'', name = ''a.txt'', content = ''x'', fsize = 1, extension = ''txt''\<rparr>] \<noteq> []" by simp
  from non_splitting_single_chunk [OF a, of "\<lambda>fs p. []" 1] a show ?thesis
    by (simp add: toChunkFile_def)
qed

text \<open>
  Claim C3. The claim expects every input file to appear in some chunk in splitting
  mode. A file with empty content never enters the \<open>while\<close> loop, so it gets no part
  and appears in no chunk, while the non-splitting path does emit it.
\<close>

theorem empty_file_dropped_when_splitting:
  "pack generateContent [\<lparr>path = ''a.txt'', name = ''a.txt'', content = [], fsize = 0, extension = ''txt''\<rparr>] 25000 True = Some []
   \<and> map (map originalPath \<circ> chunk_files)
        (the (pack generateContent [\<lparr>path = ''a.txt'', name = ''a.txt'', content = [], fsize = 0, extension = ''txt''\<rparr>] 25000 False))
       = [[''a.txt'']]"
  by (simp add: pack_def toChunkFile_def initialState_def whileLoop.simps markSplit_def finalFlush_def Let_def)


text \<open>
  Case folding beyond ASCII: under the flag \<open>i\<close> the glob \<open>src/\<close>\<^verbatim>\<open>0xC9\<close>\<open>*\<close> matches the
  path \<open>src/\<close>\<^verbatim>\<open>0xE9\<close>\<open>a\<close>, the sharp s matches only itself, and \<open>toLowerCase\<close> turns
  \<^verbatim>\<open>0xC4\<close> into \<^verbatim>\<open>0xE4\<close> and leaves the multiplication sign \<^verbatim>\<open>0xD7\<close> alone.
\<close>

lemma latin1_case_folding:
  "matchesAnyPattern (''src/'' @ [CHR 0xE9] @ ''a'') [''src/'' @ [CHR 0xC9] @ ''*'']
   \<and> \<not> matchesAnyPattern (''src/'' @ [CHR 0xDF]) [''src/SS*'']
   \<and> canonicalize (CHR 0xFF) = 376
   \<and> toLowerCase [CHR 0xC4, CHR 0xD7, CHR 0xDE] = [CHR 0xE4, CHR 0xD7, CHR 0xFE]"
  by code_simp

section \<open>Properties of the filter pipeline\<close>














section \<open>The packing loop under a budget below the overheads\<close>


lemma lastIndexOf_nonpos:
  assumes "position \<le> 0" "text \<noteq> []" "hd text \<noteq> c"
  shows "lastIndexOf text c position = - 1"
proof -
  obtain x xs where t: "text = x # xs" using assms(2) by (cases "text") auto
  have "min (max position 0) (int (length text) - 1) = 0"
    using assms(1) t by simp
  then show ?thesis
    using assms(3) t by (simp add: lastIndexOf_def)
qed

lemma findSplitPoint_nonpos:
  assumes "maxChars \<le> 0" "maxChars mod 4 = 0" "text \<noteq> []" "hd text \<noteq> newline"
  shows "findSplitPoint text maxChars = 0"
proof -
  have "0 < int (length text)" using assms(3) by simp
  then have len: "\<not> int (length text) \<le> maxChars" using assms(1) by linarith
  have li: "lastIndexOf text newline maxChars = - 1"
    using assms by (simp add: lastIndexOf_nonpos)
  have "maxChars = 0 \<or> maxChars \<le> - 4" using assms(1,2) by presburger
  then consider "maxChars = 0" | "maxChars \<le> - 4" by blast
  then show ?thesis
  proof cases
    case 1
    then show ?thesis using len li by (simp add: findSplitPoint_def)
  next
    case 2
    then have r: "(of_int maxChars :: rat) \<le> - 4" by (simp add: of_int_le_iff [of maxChars "- 4", where ?'a = rat, simplified])
    then have m: "min (1000 :: rat) (of_int maxChars * 0.2) = of_int maxChars * 0.2" by simp
    have "(of_int (- 1) :: rat) > of_int maxChars - of_int maxChars * 0.2" using r by simp
    then show ?thesis using len li m by (simp add: findSplitPoint_def Let_def)
  qed
qed

lemma slice_zero: "slice s 0 0 = []"
  by (simp add: slice_def relativeIndex_def)

lemma sliceFrom_zero: "sliceFrom s 0 = s"
  by (simp add: sliceFrom_def relativeIndex_def)

lemma loopBody_stuck:
  assumes "stuck limitChars s"
  shows "stuck limitChars (loopBody limitChars file s)"
proof -
  from assms have l: "limitChars \<le> 300" "limitChars mod 4 = 0"
    and rc: "remainingContent s \<noteq> []" "hd (remainingContent s) \<noteq> newline"
    and cur: "currentChunkFiles s = []" "currentChunkSize s = 100"
    by (simp_all add: stuck_def CHUNK_OVERHEAD_def)
  have cs: "limitChars - 300 \<le> 0" "(limitChars - 300) mod 4 = 0" using l by presburger+
  have sp: "findSplitPoint (remainingContent s) (limitChars - 300) = 0"
    using cs rc by (rule findSplitPoint_nonpos)
  have "0 < int (length (remainingContent s))" using rc(1) by simp
  then have nl: "\<not> int (length (remainingContent s)) \<le> limitChars - 300" using cs(1) by linarith
  show ?thesis
    using l rc cur nl sp
    by (simp add: stuck_def loopBody_def Let_def PER_FILE_OVERHEAD_def CHUNK_OVERHEAD_def
        pushPart_def flushChunk_def slice_zero sliceFrom_zero)
qed

lemma whileLoop_not_stuck:
  assumes "whileLoop limitChars fl s = Some r"
  shows "\<not> stuck limitChars s"
proof (rule whileLoop.raw_induct [where P = "\<lambda>l f s r. \<not> stuck l s", OF _ assms])
  fix loop l f s' r'
  assume IH: "\<And>a b c y. loop a b c = Some y \<Longrightarrow> \<not> stuck a c"
    and eq: "(if 0 < length (remainingContent s') then loop l f (loopBody l f s') else Some s') = Some r'"
  show "\<not> stuck l s'"
  proof
    assume st: "stuck l s'"
    then have "0 < length (remainingContent s')" by (simp add: stuck_def)
    with eq have "loop l f (loopBody l f s') = Some r'" by simp
    then have "\<not> stuck l (loopBody l f s')" by (rule IH)
    with loopBody_stuck [OF st] show False by blast
  qed
qed

lemma whileLoop_stuck:
  assumes "stuck limitChars s"
  shows "whileLoop limitChars fl s = None"
proof (cases "whileLoop limitChars fl s")
  case None
  then show ?thesis .
next
  case (Some r)
  then have "\<not> stuck limitChars s" by (rule whileLoop_not_stuck)
  with assms show ?thesis by blast
qed

text \<open>
  Claim C1. The claim expects the parts emitted for a file to make up its content under
  every token budget. Under a budget of 75 tokens the space left after the overheads is
  \<open>0\<close>; the loop on the first file, whose content is \<open>ab\<close>, never ends, so \<open>pack\<close>
  returns nothing: no part is ever handed out, and there is no chunk sequence whose
  parts make up the content of \<open>a.txt\<close>.
\<close>

theorem no_parts_under_small_budget:
  "pack generateContent
     [\<lparr>path = ''a.txt'', name = ''a.txt'', content = ''ab'', fsize = 2, extension = ''txt''\<rparr>,
      \<lparr>path = ''b.txt'', name = ''b.txt'', content = ''c'', fsize = 1, extension = ''txt''\<rparr>]
     75 True = None
   \<and> (\<nexists>chunks.
        pack generateContent
          [\<lparr>path = ''a.txt'', name = ''a.txt'', content = ''ab'', fsize = 2, extension = ''txt''\<rparr>,
           \<lparr>path = ''b.txt'', name = ''b.txt'', content = ''c'', fsize = 1, extension = ''txt''\<rparr>]
          75 True = Some chunks
        \<and> concat (map content (filter (\<lambda>p. originalPath p = ''a.txt'') (concat (map chunk_files chunks))))
            = ''ab'')"
proof -
  let ?a = "\<lparr>path = ''a.txt'', name = ''a.txt'', content = ''ab'', fsize = 2, extension = ''txt''\<rparr>"
  let ?b = "\<lparr>path = ''b.txt'', name = ''b.txt'', content = ''c'', fsize = 1, extension = ''txt''\<rparr>"
  have "stuck 300
          (initialState\<lparr>remainingContent := content (toChunkFile ?a), partCounter := 1, fileParts := []\<rparr>)"
    by (simp add: stuck_def initialState_def toChunkFile_def newline_def)
  then have "whileLoop 300 (toChunkFile ?a)
          (initialState\<lparr>remainingContent := content (toChunkFile ?a), partCounter := 1, fileParts := []\<rparr>) = None"
    by (rule whileLoop_stuck)
  then have "pack generateContent [?a, ?b] 75 True = None"
    by (simp add: pack_def Let_def)
  then show ?thesis by simp
qed

text \<open>
  Claim C2. The claim expects \<open>pack\<close> to return for every budget. With a budget of at
  most 75 tokens the space left after the overheads is not positive, \<open>findSplitPoint\<close>
  returns \<open>0\<close>, the part is empty and \<open>remainingContent\<close> stays as it is: for a first
  file whose content is not empty and does not begin with a newline the loop never ends.
\<close>

theorem pack_never_returns_small_budget:
  assumes "maxTokens \<le> 75" and "content f \<noteq> []" and "hd (content f) \<noteq> newline"
  shows "pack generateContent (f # rest) maxTokens True = None"
proof -
  have "stuck (maxTokens * 4)
          (initialState\<lparr>remainingContent := content (toChunkFile f), partCounter := 1, fileParts := []\<rparr>)"
    using assms by (simp add: stuck_def initialState_def toChunkFile_def)
  then have "whileLoop (maxTokens * 4) (toChunkFile f)
          (initialState\<lparr>remainingContent := content (toChunkFile f), partCounter := 1, fileParts := []\<rparr>) = None"
    by (rule whileLoop_stuck)
  then show ?thesis by (simp add: pack_def Let_def)
qed

text \<open>A budget of ten tokens and a file of one character.\<close>

theorem pack_never_returns_small_budget_witness:
  "(10 :: int) \<le> 75 \<and>
   pack (\<lambda>fs p. []) [\<lparr>path = ''a.txt'', name = ''a.txt'', content = ''a'', fsize = 1, extension = ''txt''\<rparr>]
     10 True = None"
proof -
  have a: "(10 :: int) \<le> 75" by simp
  have b: "content \<lparr>path = ''a.txt'', name = ''a.txt'', content = ''a'', fsize = 1, extension = ''txt''\<rparr> \<noteq> []"
    by simp
  have c: "hd (content \<lparr>path = ''a.txt'', name = ''a.txt'', content = ''a'', fsize = 1, extension = ''txt''\<rparr>) \<noteq> newline"
    by (simp add: newline_def)
  from pack_never_returns_small_budget [OF a b c, of "\<lambda>fs p. []" "[]"] a show ?thesis by simp
qed


section \<open>Reconstruction of the files from the parts\<close>


lemma slice_sliceFrom: "slice s 0 n @ sliceFrom s n = s"
  by (simp add: slice_def sliceFrom_def relativeIndex_def Let_def)

lemma flushChunk_fields [simp]:
  "heap (flushChunk s) = heap s"
  "remainingContent (flushChunk s) = remainingContent s"
  "partCounter (flushChunk s) = partCounter s"
  "fileParts (flushChunk s) = fileParts s"
  "currentChunkFiles (flushChunk s) = []"
  "currentChunkSize (flushChunk s) = CHUNK_OVERHEAD"
  "resultChunks (flushChunk s) = resultChunks s @ [currentChunkFiles s]"
  by (simp_all add: flushChunk_def)

lemma addrInv_flushChunk: "addrInv s \<Longrightarrow> addrInv (flushChunk s)"
  by (simp add: addrInv_def)

lemma loopBody_eq:
  "loopBody limitChars fl s =
     (if limitChars - currentChunkSize s - PER_FILE_OVERHEAD < 500 \<and> currentChunkFiles s \<noteq> []
      then flushChunk s
      else if remainingContent (placed limitChars fl s) \<noteq> [] then flushChunk (placed limitChars fl s)
      else placed limitChars fl s)"
  by (simp add: loopBody_def placed_def Let_def pushPart_def)


lemma placed_heap:
  "\<exists>part rest.
     heap (placed limitChars fl s) = heap s @ [part] \<and>
     originalPath part = originalPath fl \<and> partIndex part = partCounter s \<and>
     content part @ rest = remainingContent s \<and>
     remainingContent (placed limitChars fl s) = rest \<and>
     (rest \<noteq> [] \<longrightarrow> partCounter (placed limitChars fl s) = Suc (partCounter s))"
  by (simp add: placed_def Let_def slice_sliceFrom)

lemma placed_addr:
  "resultChunks (placed limitChars fl s) = resultChunks s"
  "currentChunkFiles (placed limitChars fl s) = currentChunkFiles s @ [length (heap s)]"
  "length (heap (placed limitChars fl s)) = Suc (length (heap s))"
  "fileParts (placed limitChars fl s) = fileParts s @ [length (heap s)]"
  by (simp_all add: placed_def Let_def)

lemma addrInv_placed: "addrInv s \<Longrightarrow> addrInv (placed limitChars fl s)"
  by (simp add: addrInv_def placed_addr)

lemma addrInv_loopBody: "addrInv s \<Longrightarrow> addrInv (loopBody limitChars fl s)"
  by (simp add: loopBody_eq addrInv_placed addrInv_flushChunk)

lemma loopInv_flushChunk: "loopInv h0 fl s \<Longrightarrow> loopInv h0 fl (flushChunk s)"
  by (simp add: loopInv_def)

lemma loopInv_placed:
  assumes "loopInv h0 fl s" and "remainingContent s \<noteq> []"
  shows "loopInv h0 fl (placed limitChars fl s)"
proof -
  from assms obtain qs where qs: "map triple (heap s) = h0 @ qs"
    "list_all (\<lambda>q. fst q = originalPath fl) qs"
    "concat (map (fst \<circ> snd) qs) @ remainingContent s = content fl"
    "map (snd \<circ> snd) qs = [1..<Suc (length qs)]"
    "partCounter s = Suc (length qs)"
    by (auto simp: loopInv_def)
  obtain part rest where p: "heap (placed limitChars fl s) = heap s @ [part]"
    "originalPath part = originalPath fl" "partIndex part = partCounter s"
    "content part @ rest = remainingContent s"
    "remainingContent (placed limitChars fl s) = rest"
    "rest \<noteq> [] \<longrightarrow> partCounter (placed limitChars fl s) = Suc (partCounter s)"
    using placed_heap [of limitChars fl s] by blast
  let ?qs = "qs @ [triple part]"
  have 1: "map triple (heap (placed limitChars fl s)) = h0 @ ?qs"
    using p(1) qs(1) by simp
  have 2: "list_all (\<lambda>q. fst q = originalPath fl) ?qs"
    using qs(2) p(2) by (simp add: triple_def)
  have "concat (map (fst \<circ> snd) ?qs) @ rest = concat (map (fst \<circ> snd) qs) @ content part @ rest"
    by (simp add: triple_def)
  then have 3: "concat (map (fst \<circ> snd) ?qs) @ remainingContent (placed limitChars fl s) = content fl"
    using p(4,5) qs(3) by simp
  have 4: "map (snd \<circ> snd) ?qs = [1..<Suc (length ?qs)]"
    using qs(4,5) p(3) by (simp add: triple_def)
  have 5: "remainingContent (placed limitChars fl s) \<noteq> [] \<longrightarrow>
             partCounter (placed limitChars fl s) = Suc (length ?qs)"
    using p(5,6) qs(5) by simp
  from 1 2 3 4 5 show ?thesis unfolding loopInv_def by blast
qed

lemma loopInv_loopBody:
  assumes "loopInv h0 fl s" and "remainingContent s \<noteq> []"
  shows "loopInv h0 fl (loopBody limitChars fl s)"
  using assms by (simp add: loopBody_eq loopInv_placed loopInv_flushChunk)

lemma whileLoop_invariant:
  assumes run: "whileLoop limitChars fl s = Some r"
    and init: "I s"
    and step: "\<And>t. I t \<Longrightarrow> remainingContent t \<noteq> [] \<Longrightarrow> I (loopBody limitChars fl t)"
  shows "I r \<and> remainingContent r = []"
proof -
  have "limitChars = limitChars \<and> fl = fl \<and> I s \<longrightarrow> I r \<and> remainingContent r = []"
  proof (rule whileLoop.raw_induct
      [where P = "\<lambda>l f s r. l = limitChars \<and> f = fl \<and> I s \<longrightarrow> I r \<and> remainingContent r = []", OF _ run])
    fix loop l f s' r'
    assume IH: "\<And>a b c y. loop a b c = Some y \<Longrightarrow>
                  a = limitChars \<and> b = fl \<and> I c \<longrightarrow> I y \<and> remainingContent y = []"
      and eq: "(if 0 < length (remainingContent s') then loop l f (loopBody l f s') else Some s') = Some r'"
    show "l = limitChars \<and> f = fl \<and> I s' \<longrightarrow> I r' \<and> remainingContent r' = []"
    proof
      assume a: "l = limitChars \<and> f = fl \<and> I s'"
      show "I r' \<and> remainingContent r' = []"
      proof (cases "remainingContent s' = []")
        case True
        with eq have "r' = s'" by simp
        with a True show ?thesis by simp
      next
        case False
        with eq have "loop l f (loopBody l f s') = Some r'" by simp
        from IH [OF this] a step [of s'] False show ?thesis by simp
      qed
    qed
  qed
  with init show ?thesis by simp
qed


lemma foldl_update_triple:
  assumes "\<And>x. triple (g x) = triple x"
  shows "map triple (foldl (\<lambda>h a. h[a := g (h ! a)]) h as) = map triple h"
proof (induction as arbitrary: h)
  case Nil
  then show ?case by simp
next
  case (Cons a as)
  have "map triple (h[a := g (h ! a)]) = map triple h"
  proof (cases "a < length h")
    case True
    have "map triple (h[a := g (h ! a)]) = (map triple h)[a := triple (h ! a)]"
      by (simp add: map_update assms)
    also have "\<dots> = (map triple h)[a := map triple h ! a]" using True by simp
    also have "\<dots> = map triple h" by (rule list_update_id)
    finally show ?thesis .
  next
    case False
    then have "length h \<le> a" by simp
    then show ?thesis by (simp add: list_update_beyond)
  qed
  with Cons.IH [of "h[a := g (h ! a)]"] show ?case by simp
qed

lemma foldl_update_length:
  "length (foldl (\<lambda>h a. h[a := g (h ! a)]) h as) = length h"
  by (induction as arbitrary: h) simp_all

lemma markSplit_triple: "map triple (heap (markSplit s)) = map triple (heap s)"
proof -
  have "\<And>x n. triple (x\<lparr>isSplit := True, totalParts := n\<rparr>) = triple x"
    by (simp add: triple_def)
  then show ?thesis
    by (simp add: markSplit_def Let_def foldl_update_triple [where g = "\<lambda>x. x\<lparr>isSplit := True, totalParts := length (fileParts s)\<rparr>"])
qed

lemma markSplit_addr:
  "resultChunks (markSplit s) = resultChunks s"
  "currentChunkFiles (markSplit s) = currentChunkFiles s"
  "length (heap (markSplit s)) = length (heap s)"
  by (simp_all add: markSplit_def Let_def foldl_update_length [where g = "\<lambda>x. x\<lparr>isSplit := True, totalParts := length (fileParts s)\<rparr>"])

lemma addrInv_markSplit: "addrInv s \<Longrightarrow> addrInv (markSplit s)"
  by (simp add: addrInv_def markSplit_addr)

lemma forFiles_invariant:
  assumes "forFiles limitChars fs s = Some r" and "heapInv finished s" and "addrInv s"
  shows "heapInv (finished @ fs) r \<and> addrInv r"
  using assms
proof (induction fs arbitrary: s finished)
  case Nil
  then show ?case by simp
next
  case (Cons f fs)
  let ?s0 = "s\<lparr>remainingContent := content f, partCounter := 1, fileParts := []\<rparr>"
  from Cons.prems(1) obtain s' where run: "whileLoop limitChars f ?s0 = Some s'"
    and rest: "forFiles limitChars fs (markSplit s') = Some r"
    by (auto split: option.splits)
  from Cons.prems(2) obtain pss where pss: "map triple (heap s) = concat pss"
    "list_all2 (\<lambda>f qs. partsOf (originalPath f) (content f) qs) finished pss"
    by (auto simp: heapInv_def)
  let ?I = "\<lambda>t. loopInv (concat pss) f t \<and> addrInv t"
  have init: "?I ?s0"
    using pss(1) Cons.prems(3) by (simp add: loopInv_def addrInv_def)
  have step: "\<And>t. ?I t \<Longrightarrow> remainingContent t \<noteq> [] \<Longrightarrow> ?I (loopBody limitChars f t)"
    by (simp add: loopInv_loopBody addrInv_loopBody)
  from whileLoop_invariant [of limitChars f ?s0 s' ?I, OF run init step]
  have fin: "loopInv (concat pss) f s'" "addrInv s'" "remainingContent s' = []" by simp_all
  from fin(1,3) obtain qs where qs: "map triple (heap s') = concat pss @ qs"
    "partsOf (originalPath f) (content f) qs"
    by (auto simp: loopInv_def partsOf_def)
  have "map triple (heap (markSplit s')) = concat (pss @ [qs])"
    using qs(1) by (simp add: markSplit_triple)
  moreover have "list_all2 (\<lambda>f qs. partsOf (originalPath f) (content f) qs) (finished @ [f]) (pss @ [qs])"
    using pss(2) qs(2) by (simp add: list_all2_appendI)
  ultimately have "heapInv (finished @ [f]) (markSplit s')"
    unfolding heapInv_def by blast
  from Cons.IH [OF rest this addrInv_markSplit [OF fin(2)]] show ?case by simp
qed


lemma filter_concat_other:
  assumes "list_all2 (\<lambda>k qs. list_all (\<lambda>q. fst q = k) qs) ks pss" and "k \<notin> set ks"
  shows "filter (\<lambda>q. fst q = k) (concat pss) = []"
  using assms
proof (induction rule: list_all2_induct)
  case Nil
  then show ?case by simp
next
  case (Cons k' ks qs pss)
  from Cons.hyps(1) Cons.prems have "filter (\<lambda>q. fst q = k) qs = []"
    by (auto simp: list_all_iff filter_empty_conv)
  with Cons show ?case by simp
qed

lemma filter_concat_own:
  assumes "list_all2 (\<lambda>k qs. list_all (\<lambda>q. fst q = k) qs) ks pss" and "distinct ks"
    and "i < length ks"
  shows "filter (\<lambda>q. fst q = ks ! i) (concat pss) = pss ! i"
  using assms
proof (induction arbitrary: i rule: list_all2_induct)
  case Nil
  then show ?case by simp
next
  case (Cons k ks qs pss)
  show ?case
  proof (cases i)
    case 0
    have "filter (\<lambda>q. fst q = k) qs = qs"
      using Cons.hyps(1) by (auto simp: list_all_iff filter_id_conv)
    moreover have "filter (\<lambda>q. fst q = k) (concat pss) = []"
      using Cons.hyps(2) Cons.prems(1) by (simp add: filter_concat_other)
    ultimately show ?thesis using 0 by simp
  next
    case (Suc j)
    with Cons.prems have j: "j < length ks" "ks ! j \<noteq> k" by auto
    have "filter (\<lambda>q. fst q = ks ! j) qs = []"
      using Cons.hyps(1) j(2) by (auto simp: list_all_iff filter_empty_conv)
    moreover have "filter (\<lambda>q. fst q = ks ! j) (concat pss) = pss ! j"
      using Cons.IH [OF _ j(1)] Cons.prems(1) by simp
    ultimately show ?thesis using Suc by simp
  qed
qed

lemma chunk_files_final:
  "map chunk_files (map (finalChunk generateContent s) (enumerate n cs)) = map (map (\<lambda>a. heap s ! a)) cs"
  by (induction cs arbitrary: n) (simp_all add: finalChunk_def Let_def)

lemma finalFlush_chunks:
  "concat (resultChunks (finalFlush s)) = concat (resultChunks s) @ currentChunkFiles s"
  "heap (finalFlush s) = heap s"
  by (simp_all add: finalFlush_def)

lemma parts_of_result:
  assumes "pack generateContent files maxTokens enableSplitting = Some chunks"
  shows "\<exists>pss. map triple (concat (map chunk_files chunks)) = concat pss \<and>
               list_all2 (\<lambda>f qs. partsOf (path f) (content f) qs) files pss"
proof (cases "files = [] \<or> \<not> enableSplitting")
  case True
  then have c: "concat (map chunk_files chunks) = map toChunkFile files"
    using assms by (auto simp: pack_def Let_def split: if_splits)
  have "map triple (map toChunkFile files) = concat (map (\<lambda>f. [(path f, content f, 1)]) files)"
    by (induction files) (simp_all add: triple_def toChunkFile_def)
  moreover have "list_all2 (\<lambda>f qs. partsOf (path f) (content f) qs) files
                   (map (\<lambda>f. [(path f, content f, 1)]) files)"
    by (simp add: list_all2_map2 list_all2_same partsOf_def)
  ultimately show ?thesis unfolding c by blast
next
  case False
  then have ne: "files \<noteq> []" and sp: enableSplitting by simp_all
  from assms ne sp obtain s where run: "forFiles (maxTokens * 4) (map toChunkFile files) initialState = Some s"
    and ch: "chunks = map (finalChunk generateContent (finalFlush s)) (enumerate 0 (resultChunks (finalFlush s)))"
    by (auto simp: pack_def Let_def split: option.splits)
  have "heapInv [] initialState" by (simp add: heapInv_def initialState_def)
  moreover have "addrInv initialState" by (simp add: addrInv_def initialState_def)
  ultimately have inv: "heapInv (map toChunkFile files) s" "addrInv s"
    using forFiles_invariant [OF run, of "[]"] by simp_all
  have "concat (map chunk_files chunks) =
          concat (map (map (\<lambda>a. heap s ! a)) (resultChunks (finalFlush s)))"
    unfolding ch chunk_files_final by (simp add: finalFlush_chunks)
  also have "\<dots> = map (\<lambda>a. heap s ! a) (concat (resultChunks (finalFlush s)))"
    by (simp add: map_concat)
  also have "\<dots> = map (\<lambda>a. heap s ! a) [0..<length (heap s)]"
    using inv(2) unfolding finalFlush_chunks addrInv_def by simp
  also have "\<dots> = heap s" by (rule map_nth)
  finally have c: "concat (map chunk_files chunks) = heap s" .
  from inv(1) obtain pss where "map triple (heap s) = concat pss"
    "list_all2 (\<lambda>f qs. partsOf (originalPath f) (content f) qs) (map toChunkFile files) pss"
    by (auto simp: heapInv_def)
  then have "map triple (heap s) = concat pss \<and> list_all2 (\<lambda>f qs. partsOf (path f) (content f) qs) files pss"
    by (simp add: list_all2_map1 toChunkFile_def)
  then show ?thesis unfolding c by blast
qed

text \<open>
  Whenever \<open>pack\<close> returns chunks, in either mode and for any budget, the parts of a
  file (paths being unique), taken in the order of the chunks, carry the indices
  1, 2, ... in increasing order, and their content slices concatenated in that order are
  exactly the content of the file.
\<close>

lemma reconstruction_when_returned:
  assumes "pack generateContent files maxTokens enableSplitting = Some chunks"
    and "distinct (map path files)"
    and "f \<in> set files"
  shows "concat (map content (filter (\<lambda>p. originalPath p = path f) (concat (map chunk_files chunks))))
           = content f
         \<and> map partIndex (filter (\<lambda>p. originalPath p = path f) (concat (map chunk_files chunks)))
           = [1..<Suc (length (filter (\<lambda>p. originalPath p = path f) (concat (map chunk_files chunks))))]"
proof -
  let ?parts = "filter (\<lambda>p. originalPath p = path f) (concat (map chunk_files chunks))"
  from parts_of_result [OF assms(1)] obtain pss
    where pss: "map triple (concat (map chunk_files chunks)) = concat pss"
      "list_all2 (\<lambda>f qs. partsOf (path f) (content f) qs) files pss"
    by blast
  from assms(3) obtain i where i: "i < length files" "files ! i = f"
    by (auto simp: in_set_conv_nth)
  have keys: "list_all2 (\<lambda>k qs. list_all (\<lambda>q. fst q = k) qs) (map path files) pss"
    using pss(2) by (simp add: list_all2_map1 partsOf_def list_all2_mono)
  have "list_all2 (\<lambda>k qs. list_all (\<lambda>q. fst q = k) qs) (map path files) pss"
    by (rule keys)
  have own: "filter (\<lambda>q. fst q = path f) (concat pss) = pss ! i"
    using filter_concat_own [OF keys assms(2), of i] i by simp
  have "map triple ?parts = filter (\<lambda>q. fst q = path f) (map triple (concat (map chunk_files chunks)))"
    by (simp add: filter_map comp_def triple_def)
  then have t: "map triple ?parts = pss ! i" using pss(1) own by simp
  have po: "partsOf (path f) (content f) (pss ! i)"
    using list_all2_nthD [OF pss(2) i(1)] i(2) by simp
  have "map content ?parts = map (fst \<circ> snd) (map triple ?parts)"
    by (simp add: triple_def comp_def)
  then have 1: "concat (map content ?parts) = content f"
    using t po by (simp add: partsOf_def)
  have len: "length ?parts = length (pss ! i)" using t by (metis length_map)
  have "map partIndex ?parts = map (snd \<circ> snd) (map triple ?parts)"
    by (simp add: triple_def comp_def)
  then have 2: "map partIndex ?parts = [1..<Suc (length ?parts)]"
    using t po len by (simp add: partsOf_def)
  from 1 2 show ?thesis by blast
qed



section \<open>The packing loop under a budget of at least 76 tokens\<close>


lemma lastIndex_bounds: "- 1 \<le> lastIndex xs c \<and> lastIndex xs c < int (length xs)"
  by (induction xs) (auto simp: Let_def)

lemma lastIndexOf_bounds:
  "- 1 \<le> lastIndexOf s c position \<and> lastIndexOf s c position < int (length s)"
proof -
  let ?t = "take (nat (min (max position 0) (int (length s) - 1) + 1)) s"
  have "length ?t \<le> length s" by simp
  with lastIndex_bounds [of ?t c] show ?thesis
    unfolding lastIndexOf_def Let_def by linarith
qed

lemma findSplitPoint_bounds:
  assumes "1 \<le> maxChars" and "maxChars < int (length txt)"
  shows "1 \<le> findSplitPoint txt maxChars \<and> findSplitPoint txt maxChars \<le> int (length txt)"
proof (cases "(of_int (lastIndexOf txt newline maxChars) :: rat)
                > of_int maxChars - min 1000 (of_int maxChars * 0.2)")
  case True
  have "(0 :: rat) < of_int maxChars" using assms(1) by simp
  then have "(0 :: rat) \<le> of_int maxChars - of_int maxChars * 0.2" by simp
  also have "\<dots> \<le> of_int maxChars - min 1000 (of_int maxChars * 0.2)" by simp
  also have "\<dots> < of_int (lastIndexOf txt newline maxChars)" by (rule True)
  finally have "0 < lastIndexOf txt newline maxChars" by simp
  moreover have "lastIndexOf txt newline maxChars < int (length txt)"
    using lastIndexOf_bounds by blast
  ultimately show ?thesis using assms True by (simp add: findSplitPoint_def Let_def)
next
  case False
  then show ?thesis using assms by (simp add: findSplitPoint_def Let_def)
qed

lemma placed_shrinks:
  assumes "roomy limitChars s" and "\<not> mustFlush limitChars s" and "remainingContent s \<noteq> []"
  shows "length (remainingContent (placed limitChars fl s)) < length (remainingContent s)"
proof -
  let ?space = "limitChars - currentChunkSize s - PER_FILE_OVERHEAD"
  have pos: "0 < length (remainingContent s)" using assms(3) by simp
  have space: "1 \<le> ?space"
    using assms(1,2) by (cases "currentChunkFiles s = []")
      (auto simp: roomy_def mustFlush_def CHUNK_OVERHEAD_def PER_FILE_OVERHEAD_def)
  show ?thesis
  proof (cases "int (length (remainingContent s)) \<le> ?space")
    case True
    then show ?thesis using pos by (simp add: placed_def Let_def)
  next
    case False
    then have "?space < int (length (remainingContent s))" by simp
    from findSplitPoint_bounds [OF space this]
    have "0 < nat (findSplitPoint (remainingContent s) ?space)" by simp
    then show ?thesis using False pos
      by (simp add: placed_def Let_def sliceFrom_def relativeIndex_def)
  qed
qed

lemma roomy_flushChunk: "roomy limitChars s \<Longrightarrow> roomy limitChars (flushChunk s)"
  by (simp add: roomy_def)

lemma roomy_placed: "roomy limitChars s \<Longrightarrow> roomy limitChars (placed limitChars fl s)"
  by (simp add: roomy_def placed_addr)

lemma roomy_loopBody:
  assumes "roomy limitChars s"
  shows "roomy limitChars (loopBody limitChars fl s)"
proof -
  have "loopBody limitChars fl s = flushChunk s \<or>
        loopBody limitChars fl s = flushChunk (placed limitChars fl s) \<or>
        loopBody limitChars fl s = placed limitChars fl s"
    unfolding loopBody_eq by simp
  then show ?thesis
    using roomy_flushChunk [OF assms] roomy_placed [OF assms, of fl]
      roomy_flushChunk [OF roomy_placed [OF assms, of fl]]
    by auto
qed

lemma workLeft_loopBody:
  assumes "roomy limitChars s" and "remainingContent s \<noteq> []"
  shows "workLeft limitChars (loopBody limitChars fl s) < workLeft limitChars s"
proof (cases "mustFlush limitChars s")
  case True
  then have "loopBody limitChars fl s = flushChunk s"
    by (simp add: loopBody_eq mustFlush_def)
  moreover have "\<not> mustFlush limitChars (flushChunk s)" by (simp add: mustFlush_def)
  ultimately show ?thesis using True by (simp add: workLeft_def)
next
  case False
  from placed_shrinks [OF assms(1) False assms(2), of fl]
  have less: "length (remainingContent (placed limitChars fl s)) < length (remainingContent s)" .
  have "remainingContent (loopBody limitChars fl s) = remainingContent (placed limitChars fl s)"
    using False by (auto simp: loopBody_eq mustFlush_def)
  then have "workLeft limitChars (loopBody limitChars fl s)
               \<le> 2 * length (remainingContent (placed limitChars fl s)) + 1"
    by (simp add: workLeft_def)
  also have "\<dots> < 2 * length (remainingContent s)" using less by simp
  also have "\<dots> \<le> workLeft limitChars s" by (simp add: workLeft_def)
  finally show ?thesis .
qed

lemma whileLoop_returns:
  assumes "roomy limitChars s"
  shows "\<exists>r. whileLoop limitChars fl s = Some r \<and> roomy limitChars r"
  using assms
proof (induction "workLeft limitChars s" arbitrary: s rule: less_induct)
  case less
  show ?case
  proof (cases "remainingContent s = []")
    case True
    then have "whileLoop limitChars fl s = Some s" by (subst whileLoop.simps) simp
    with less.prems show ?thesis by simp
  next
    case False
    then have eq: "whileLoop limitChars fl s = whileLoop limitChars fl (loopBody limitChars fl s)"
      by (subst whileLoop.simps) simp
    from less.hyps [OF workLeft_loopBody [OF less.prems False] roomy_loopBody [OF less.prems]]
    show ?thesis unfolding eq .
  qed
qed

lemma forFiles_returns:
  assumes "roomy limitChars s"
  shows "\<exists>r. forFiles limitChars fs s = Some r"
  using assms
proof (induction fs arbitrary: s)
  case Nil
  then show ?case by simp
next
  case (Cons f fs)
  let ?s0 = "s\<lparr>remainingContent := content f, partCounter := 1, fileParts := []\<rparr>"
  have "roomy limitChars ?s0" using Cons.prems by (simp add: roomy_def)
  from whileLoop_returns [OF this, of f] obtain r
    where r: "whileLoop limitChars f ?s0 = Some r" "roomy limitChars r" by blast
  have "roomy limitChars (markSplit r)"
    using r(2) by (simp add: roomy_def markSplit_def Let_def)
  from Cons.IH [OF this] r(1) show ?case by simp
qed

text \<open>From 76 tokens on the loop consumes content in every iteration that places a part.\<close>

lemma pack_returns:
  assumes "76 \<le> maxTokens"
  shows "\<exists>chunks. pack generateContent files maxTokens enableSplitting = Some chunks"
proof -
  have "roomy (maxTokens * 4) initialState"
    using assms by (simp add: roomy_def initialState_def)
  from forFiles_returns [OF this, of "map toChunkFile files"] show ?thesis
    by (auto simp: pack_def Let_def)
qed



text \<open>
  So from 76 tokens on, and always without splitting, \<open>pack\<close> returns chunks from
  which every file is reconstructed.
\<close>

lemma reconstruction_total:
  assumes "76 \<le> maxTokens \<or> \<not> enableSplitting"
    and "distinct (map path files)"
    and "f \<in> set files"
  shows "\<exists>chunks. pack generateContent files maxTokens enableSplitting = Some chunks \<and>
           concat (map content (filter (\<lambda>p. originalPath p = path f) (concat (map chunk_files chunks))))
             = content f"
proof -
  have "\<exists>chunks. pack generateContent files maxTokens enableSplitting = Some chunks"
  proof (cases "76 \<le> maxTokens")
    case True
    then show ?thesis by (rule pack_returns)
  next
    case False
    with assms(1) have "\<not> enableSplitting" by simp
    then show ?thesis by (simp add: pack_def Let_def)
  qed
  then obtain chunks where c: "pack generateContent files maxTokens enableSplitting = Some chunks"
    by blast
  from reconstruction_when_returned [OF c assms(2,3)] c show ?thesis by blast
qed

section \<open>The expressions of \<open>globToRegex\<close> always compile\<close>

text \<open>
  Every special character is escaped and every star and question mark is replaced, so
  the text handed to the constructor stays inside the fragment \<open>parseRegex\<close> reads:
  the \<open>catch\<close> branch of \<open>matchesAnyPattern\<close> is never taken.
\<close>


lemma special_chars:
  "regexSpecial backslash" "\<not> regexSpecial star" "\<not> regexSpecial CHR ''?''" "regexSpecial dot"
  "regexSpecial CHR ''[''" "backslash \<noteq> star" "backslash \<noteq> CHR ''?''" "backslash \<noteq> dot"
  "star \<noteq> dot" "star \<noteq> CHR ''?''" "dot \<noteq> CHR ''?''"
  by (simp_all add: regexSpecial_def backslash_def star_def dot_def)

lemma wellEscaped_escapeSpecial: "wellEscaped (escapeSpecial p)"
proof (induction p)
  case Nil
  then show ?case by (simp add: escapeSpecial_def)
next
  case (Cons c p)
  have e: "escapeSpecial (c # p) = (if regexSpecial c then [backslash, c] else [c]) @ escapeSpecial p"
    by (simp add: escapeSpecial_def)
  show ?case
  proof (cases "regexSpecial c")
    case True
    with Cons e show ?thesis by simp
  next
    case False
    then have "c \<noteq> backslash" using special_chars(1) by auto
    with False Cons e show ?thesis by simp
  qed
qed

lemma replaceDoubleStar_Cons:
  "c \<noteq> star \<Longrightarrow> replaceDoubleStar (c # cs) = c # replaceDoubleStar cs"
  by (cases cs) simp_all

lemma wellEscaped_replaceDoubleStar:
  "wellEscaped s \<Longrightarrow> wellEscaped (replaceDoubleStar s)"
proof (induction s rule: length_induct)
  case (1 s)
  show ?case
  proof (cases s)
    case Nil
    then show ?thesis by simp
  next
    case (Cons c cs)
    show ?thesis
    proof (cases "c = backslash")
      case True
      with "1.prems" Cons obtain d ds where d: "cs = d # ds" "regexSpecial d" "wellEscaped ds"
        by (auto split: list.splits)
      then have "d \<noteq> star" using special_chars(2) by auto
      then have "replaceDoubleStar s = backslash # d # replaceDoubleStar ds"
        using Cons True d(1) special_chars(6) by (simp add: replaceDoubleStar_Cons)
      moreover have "wellEscaped (replaceDoubleStar ds)"
        using "1.IH" d(1,3) Cons by simp
      ultimately show ?thesis using d(2) by simp
    next
      case False
      with "1.prems" Cons have c: "\<not> regexSpecial c \<or> c = dot" and cs: "wellEscaped cs" by simp_all
      show ?thesis
      proof (cases "c = star \<and> (\<exists>cs'. cs = star # cs')")
        case True
        then obtain cs' where cs': "cs = star # cs'" by blast
        with cs have "wellEscaped cs'" using special_chars(2,6) by simp
        then have "wellEscaped (replaceDoubleStar cs')" using "1.IH" Cons cs' by simp
        moreover have "replaceDoubleStar s = dot # star # replaceDoubleStar cs'"
          using Cons True cs' by (simp add: dot_def star_def)
        ultimately show ?thesis using special_chars by simp
      next
        case no: False
        have "replaceDoubleStar s = c # replaceDoubleStar cs"
        proof (cases "c = star")
          case True
          with no Cons show ?thesis by (cases cs) auto
        next
          case False
          with Cons show ?thesis by (simp add: replaceDoubleStar_Cons)
        qed
        moreover have "wellEscaped (replaceDoubleStar cs)" using "1.IH" Cons cs by simp
        ultimately show ?thesis using c False by simp
      qed
    qed
  qed
qed

lemma parseRegex_wellEscaped:
  "wellEscaped s \<Longrightarrow> parseRegex (replaceQuestion (replaceStar s)) \<noteq> None"
proof (induction s rule: wellEscaped.induct)
  case 1
  then show ?case by (simp add: replaceStar_def replaceQuestion_def)
next
  case (2 c cs)
  have app: "\<And>a b. replaceQuestion (replaceStar (a @ b)) = replaceQuestion (replaceStar a) @ replaceQuestion (replaceStar b)"
    by (simp add: replaceStar_def replaceQuestion_def)
  show ?case
  proof (cases "c = backslash")
    case True
    with "2.prems" obtain d ds where d: "cs = d # ds" "regexSpecial d" "wellEscaped ds"
      by (auto split: list.splits)
    then have nd: "d \<noteq> star" "d \<noteq> CHR ''?''" using special_chars(2,3) by auto
    have "replaceQuestion (replaceStar (c # cs)) = backslash # d # replaceQuestion (replaceStar ds)"
      using True d(1) nd special_chars(6,7) by (simp add: replaceStar_def replaceQuestion_def)
    moreover have "parseRegex (replaceQuestion (replaceStar ds)) \<noteq> None"
      using "2.IH"(1) True d by simp
    ultimately show ?thesis by auto
  next
    case False
    with "2.prems" have c: "\<not> regexSpecial c \<or> c = dot" and cs: "wellEscaped cs" by simp_all
    have ih: "parseRegex (replaceQuestion (replaceStar cs)) \<noteq> None"
      using "2.IH"(2) False c cs by simp
    consider "c = star" | "c = CHR ''?''" | "c = dot" | "c \<noteq> star" "c \<noteq> CHR ''?''" "c \<noteq> dot" by blast
    then show ?thesis
    proof cases
      case 1
      then have "replaceQuestion (replaceStar (c # cs)) = ''[^/]*'' @ replaceQuestion (replaceStar cs)"
        by (simp add: replaceStar_def replaceQuestion_def)
      with ih show ?thesis by (auto simp: backslash_def dot_def)
    next
      case 2
      then have "replaceQuestion (replaceStar (c # cs)) = dot # replaceQuestion (replaceStar cs)"
        by (simp add: replaceStar_def replaceQuestion_def star_def)
      with ih show ?thesis using special_chars by auto
    next
      case 3
      then have "replaceQuestion (replaceStar (c # cs)) = dot # replaceQuestion (replaceStar cs)"
        using special_chars by (simp add: replaceStar_def replaceQuestion_def)
      with ih show ?thesis using special_chars by auto
    next
      case 4
      then have "replaceQuestion (replaceStar (c # cs)) = c # replaceQuestion (replaceStar cs)"
        by (simp add: replaceStar_def replaceQuestion_def)
      moreover from 4 c False have "c \<noteq> CHR ''['' \<and> c \<notin> set ''*?+^$(){}|]''"
        by (auto simp: regexSpecial_def star_def)
      ultimately show ?thesis using ih False 4 by auto
    qed
  qed
qed

lemma parseRegex_regexString: "parseRegex (regexString pattern) \<noteq> None"
  unfolding regexString_def
  by (intro parseRegex_wellEscaped wellEscaped_replaceDoubleStar wellEscaped_escapeSpecial)


section \<open>An upper bound for \<open>findSplitPoint\<close>\<close>

text \<open>For a limit that is not negative the split point is at most one past the limit.\<close>

lemma findSplitPoint_upper:
  assumes "0 \<le> maxChars"
  shows "findSplitPoint txt maxChars \<le> maxChars + 1"
proof -
  let ?t = "take (nat (min (max maxChars 0) (int (length txt) - 1) + 1)) txt"
  have "int (length ?t) \<le> maxChars + 1" using assms by simp
  with lastIndex_bounds [of ?t newline] have "lastIndexOf txt newline maxChars \<le> maxChars"
    unfolding lastIndexOf_def Let_def by linarith
  then show ?thesis by (simp add: findSplitPoint_def Let_def)
qed


end
